theory Spec2Isabelle
  imports Complex_Main
begin

section \<open>Text\<close>

text \<open>
  A Python \<open>str\<close> is a sequence of Unicode code points; \<open>len\<close> counts code points.
  The model keeps a string as the list of its code points, so that the ellipsis
  (U+2026) is one element, as it is one character for \<open>len\<close>.
\<close>

type_synonym pystr = "nat list"

definition lit :: "string \<Rightarrow> pystr" where
  "lit cs = map of_char cs"

text \<open>
  The characters that \<open>str.strip()\<close> and \<open>str.rstrip()\<close> remove when called without an
  argument: the code points for which \<open>str.isspace\<close> holds.
\<close>

definition py_isspace :: "nat \<Rightarrow> bool" where
  "py_isspace c \<longleftrightarrow>
     (9 \<le> c \<and> c \<le> 13) \<or> (28 \<le> c \<and> c \<le> 32) \<or> c = 133 \<or> c = 160 \<or> c = 5760 \<or>
     (8192 \<le> c \<and> c \<le> 8202) \<or> c = 8232 \<or> c = 8233 \<or> c = 8239 \<or> c = 8287 \<or>
     c = 12288"

definition lstrip :: "pystr \<Rightarrow> pystr" where
  "lstrip t = dropWhile py_isspace t"

definition rstrip :: "pystr \<Rightarrow> pystr" where
  "rstrip t = rev (dropWhile py_isspace (rev t))"

definition strip :: "pystr \<Rightarrow> pystr" where
  "strip t = rstrip (lstrip t)"

text \<open>A string carries no surrounding whitespace.\<close>

definition stripped :: "pystr \<Rightarrow> bool" where
  "stripped t \<longleftrightarrow> t = [] \<or> (\<not> py_isspace (hd t) \<and> \<not> py_isspace (last t))"

section \<open>Bookmark extraction\<close>

text \<open>
  \<open>reader.outline\<close> is a list whose items are outline objects or, again, lists.
  Of an outline object the code reads three things: its \<open>title\<close> attribute, when it
  has one (\<open>title_attr\<close>, already as the text \<open>str\<close> gives), the text \<open>str(it)\<close> that
  \<open>getattr\<close> takes as its default (\<open>obj_str\<close>), and the zero-based page that
  \<open>reader.get_destination_page_number\<close> resolves it to (\<open>dest_page\<close>, \<open>None\<close> when
  the call raises). Whatever else the object carries is never read; \<open>child_attr\<close>
  stands for a list of child items kept as an attribute of the object.
\<close>

datatype raw =
    Dest (title_attr: "pystr option") (obj_str: pystr) (dest_page: "int option")
         (child_attr: "raw list")
  | Sub "raw list"

type_synonym entry = "int \<times> pystr \<times> int option"

definition entry_level :: "entry \<Rightarrow> int" where
  "entry_level e = fst e"

definition entry_title :: "entry \<Rightarrow> pystr" where
  "entry_title e = fst (snd e)"

definition entry_page :: "entry \<Rightarrow> int option" where
  "entry_page e = snd (snd e)"

fun is_list :: "raw \<Rightarrow> bool" where
  "is_list (Sub xs) = True"
| "is_list (Dest ta os dp ch) = False"

fun sub_items :: "raw \<Rightarrow> raw list" where
  "sub_items (Sub xs) = xs"
| "sub_items (Dest ta os dp ch) = []"

text \<open>
  The tuple appended for an outline object at a level: \<open>getattr(it, "title", str(it))\<close>,
  stripped, and the resolved page plus one, or \<open>None\<close> when resolving raised.
\<close>

definition item_entry :: "int \<Rightarrow> pystr option \<Rightarrow> pystr \<Rightarrow> int option \<Rightarrow> entry" where
  "item_entry level ta os dp =
     (level, strip (case ta of Some t \<Rightarrow> t | None \<Rightarrow> os), map_option (\<lambda>p. p + 1) dp)"

text \<open>
  \<open>walk_outline(seq, level)\<close> with its loop index \<open>i\<close> and the list \<open>items\<close> that the
  closure appends to, passed in and returned.
\<close>

function walk_outline :: "raw list \<Rightarrow> int \<Rightarrow> nat \<Rightarrow> entry list \<Rightarrow> entry list" where
  "walk_outline seq level i items =
     (if i < length seq then
        (case seq ! i of
           Sub it \<Rightarrow> walk_outline seq level (i + 1) (walk_outline it (level + 1) 0 items)
         | Dest ta os dp ch \<Rightarrow>
             (if i + 1 < length seq \<and> is_list (seq ! (i + 1))
              then walk_outline seq level (i + 2)
                     (walk_outline (sub_items (seq ! (i + 1))) (level + 1) 0
                        (items @ [item_entry level ta os dp]))
              else walk_outline seq level (i + 1) (items @ [item_entry level ta os dp])))
      else items)"
  by pat_completeness auto
termination
proof (relation "measures [\<lambda>(seq, level, i, items). size_list size seq,
                          \<lambda>(seq, level, i, items). length seq - i]")
  show "wf (measures [\<lambda>(seq, level, i, items). size_list size seq,
                      \<lambda>(seq, level, i, items). length seq - i])"
    by simp
next
  fix seq :: "raw list" and level :: int and i :: nat and items :: "entry list" and it
  assume "i < length seq" and "seq ! i = Sub it"
  then have "Sub it \<in> set seq"
    by (metis nth_mem)
  then have "size (Sub it) \<le> size_list size seq"
    by (simp add: size_list_estimation')
  then show "((it, level + 1, 0, items), seq, level, i, items)
      \<in> measures [\<lambda>(seq, level, i, items). size_list size seq,
                    \<lambda>(seq, level, i, items). length seq - i]"
    by simp
next
  fix seq :: "raw list" and level :: int and i :: nat and items :: "entry list"
    and ta os dp ch
  assume "i < length seq" and "i + 1 < length seq \<and> is_list (seq ! (i + 1))"
  then obtain xs where xs: "seq ! (i + 1) = Sub xs"
    by (cases "seq ! (i + 1)") auto
  with \<open>i + 1 < length seq \<and> is_list (seq ! (i + 1))\<close> have "Sub xs \<in> set seq"
    by (metis nth_mem)
  then have "size (Sub xs) \<le> size_list size seq"
    by (simp add: size_list_estimation')
  with xs show "((sub_items (seq ! (i + 1)), level + 1, 0, items @ [item_entry level ta os dp]),
       seq, level, i, items)
      \<in> measures [\<lambda>(seq, level, i, items). size_list size seq,
                    \<lambda>(seq, level, i, items). length seq - i]"
    by simp
qed auto

declare walk_outline.simps [simp del]

text \<open>
  A source document: \<open>PdfReader(...)\<close> or \<open>reader.outline\<close> raises, or the reader
  hands out the outline.
\<close>

datatype pdf = Unreadable | Readable raw

datatype error =
    PdfReadError
  | ZeroDivisionError
  | FileNotFoundError
  | OSError

definition extract_bookmarks :: "pdf \<Rightarrow> error + entry list" where
  "extract_bookmarks pdf_path =
     (case pdf_path of
        Unreadable \<Rightarrow> Inl PdfReadError
      | Readable outlines \<Rightarrow>
          (case outlines of
             Sub seq \<Rightarrow> Inr (walk_outline seq 1 0 [])
           | Dest ta os dp ch \<Rightarrow> Inr ([] @ [item_entry 1 ta os dp])))"

subsection \<open>What the flattener is compared with\<close>

text \<open>
  The entries of a nested list structure in depth-first pre-order: an object gives its
  entry at the level of the list it stands in, a nested list gives its items one level
  deeper, in place.
\<close>

fun nested_entries :: "int \<Rightarrow> raw \<Rightarrow> entry list" where
  "nested_entries level (Dest ta os dp ch) = [item_entry level ta os dp]"
| "nested_entries level (Sub xs) = concat (map (nested_entries (level + 1)) xs)"

text \<open>
  The same walk through both nesting conventions: the children of an object are the
  list that follows it and the list it carries as an attribute; both are one level
  below the object.
\<close>

fun outline_entries :: "int \<Rightarrow> raw \<Rightarrow> entry list" where
  "outline_entries level (Dest ta os dp ch) =
     item_entry level ta os dp # concat (map (outline_entries (level + 1)) ch)"
| "outline_entries level (Sub xs) = concat (map (outline_entries (level + 1)) xs)"

text \<open>The root's direct children are at level 1; a single object that is no list, too.\<close>

definition preorder_entries :: "raw \<Rightarrow> entry list" where
  "preorder_entries outlines =
     (case outlines of
        Sub seq \<Rightarrow> outline_entries 0 (Sub seq)
      | Dest ta os dp ch \<Rightarrow> outline_entries 1 (Dest ta os dp ch))"

fun node_count :: "raw \<Rightarrow> nat" where
  "node_count (Dest ta os dp ch) = 1 + sum_list (map node_count ch)"
| "node_count (Sub xs) = sum_list (map node_count xs)"

text \<open>No object of the structure carries a child list as an attribute.\<close>

fun attr_free :: "raw \<Rightarrow> bool" where
  "attr_free (Dest ta os dp ch) = (ch = [])"
| "attr_free (Sub xs) = list_all attr_free xs"

text \<open>Consecutive levels go up by one at most.\<close>

fun level_steps_ok :: "int list \<Rightarrow> bool" where
  "level_steps_ok (a # b # rest) = (b \<le> a + 1 \<and> level_steps_ok (b # rest))"
| "level_steps_ok [a] = True"
| "level_steps_ok [] = True"

text \<open>
  No level is more than one above the greatest level before it (the weaker reading of
  the same invariant).
\<close>

fun level_max_ok :: "int \<Rightarrow> int list \<Rightarrow> bool" where
  "level_max_ok m [] = True"
| "level_max_ok m (b # rest) = (b \<le> m + 1 \<and> level_max_ok (max m b) rest)"

text \<open>
  Every nested list stands right after an object, its parent: no list opens a list
  and no list follows a list.
\<close>

fun well_nested :: "raw list \<Rightarrow> bool" where
  "well_nested [] = True"
| "well_nested (Sub xs # rest) = False"
| "well_nested (Dest ta os dp ch # Sub xs # rest) = (well_nested xs \<and> well_nested rest)"
| "well_nested [Dest ta os dp ch] = True"
| "well_nested (Dest ta os dp ch # Dest ta' os' dp' ch' # rest) =
     well_nested (Dest ta' os' dp' ch' # rest)"

text \<open>
  The levels of a walk that starts at level \<open>l\<close>: the first is \<open>l\<close>, none is below
  \<open>l\<close>, and consecutive levels go up by one at most.
\<close>

definition levels_from :: "int \<Rightarrow> int list \<Rightarrow> bool" where
  "levels_from l L \<longleftrightarrow>
     (L \<noteq> [] \<longrightarrow> hd L = l) \<and> (\<forall>x \<in> set L. l \<le> x) \<and> level_steps_ok L"

section \<open>The table of contents as a PDF\<close>

text \<open>
  Lengths are points. ReportLab computes with floats; the model computes with exact
  rationals (\<open>mm\<close> is 72 / 25.4 points), so the rounding of a float operation is not
  part of it.
\<close>

definition mm :: rat where
  "mm = 360 / 127"

definition A4 :: "rat \<times> rat" where
  "A4 = (210 * mm, 297 * mm)"

datatype fontname = Helvetica | Helvetica_Bold

text \<open>
  \<open>pdfmetrics.stringWidth(s, fontname, fontsize)\<close>: the font metrics are not part of
  the repository, so they are a parameter of everything that measures text.
\<close>

type_synonym metrics = "pystr \<Rightarrow> fontname \<Rightarrow> int \<Rightarrow> rat"

text \<open>
  The canvas: the pages that \<open>showPage\<close> has closed, the drawing operations of the
  page being filled, and the font that \<open>setFont\<close> chose. A \<open>drawString\<close> is recorded
  with its position, its text and the font in force.
\<close>

datatype draw = DrawString rat rat pystr fontname int

record canvas =
  pages :: "draw list list"
  code :: "draw list"
  font :: "fontname \<times> int"

definition Canvas :: canvas where
  "Canvas = \<lparr>pages = [], code = [], font = (Helvetica, 12)\<rparr>"

definition setFont :: "canvas \<Rightarrow> fontname \<Rightarrow> int \<Rightarrow> canvas" where
  "setFont c fontname fontsize = c\<lparr>font := (fontname, fontsize)\<rparr>"

definition drawString :: "canvas \<Rightarrow> rat \<Rightarrow> rat \<Rightarrow> pystr \<Rightarrow> canvas" where
  "drawString c x y s = c\<lparr>code := code c @ [DrawString x y s (fst (font c)) (snd (font c))]\<rparr>"

text \<open>\<open>showPage\<close> closes the page and starts the next one with the initial font.\<close>

definition showPage :: "canvas \<Rightarrow> canvas" where
  "showPage c = c\<lparr>pages := pages c @ [code c], code := [], font := (Helvetica, 12)\<rparr>"

text \<open>
  \<open>save\<close> closes the page being filled when something was drawn on it; the file it
  writes is the list of pages.
\<close>

definition save :: "canvas \<Rightarrow> draw list list" where
  "save c = pages (if code c \<noteq> [] then showPage c else c)"

definition width :: rat where
  "width = fst A4"

definition height :: rat where
  "height = snd A4"

definition left :: rat where
  "left = 25 * mm"

definition right :: rat where
  "right = 25 * mm"

definition top_y :: rat where
  "top_y = height - 25 * mm"

definition bottom :: rat where
  "bottom = 20 * mm"

definition page_col_x :: rat where
  "page_col_x = width - right"

definition line_h :: rat where
  "line_h = 7 * mm"

definition header :: "pystr \<Rightarrow> canvas \<Rightarrow> rat \<times> canvas" where
  "header doc_title c =
     (let y = top_y;
          c = setFont c Helvetica_Bold 18;
          c = drawString c left y doc_title;
          y = y - 20 * mm;
          c = setFont c Helvetica 11;
          c = drawString c left y (lit ''Inhaltsverzeichnis (aus PDF-Lesezeichen)'');
          y = y - 10 * mm
      in (y, c))"

text \<open>\<open>str\<close> of an integer: its decimal digits, with a minus sign when negative.\<close>

fun digits :: "nat \<Rightarrow> pystr" where
  "digits n = (if n < 10 then [48 + n] else digits (n div 10) @ [48 + n mod 10])"

declare digits.simps [simp del]

definition str_int :: "int \<Rightarrow> pystr" where
  "str_int i = (if i < 0 then 45 # digits (nat (- i)) else digits (nat i))"

text \<open>\<open>int\<close> of a float rounds towards zero.\<close>

definition py_int :: "rat \<Rightarrow> int" where
  "py_int q = (if 0 \<le> q then \<lfloor>q\<rfloor> else \<lceil>q\<rceil>)"

text \<open>
  The loop that shortens a title, \<open>while str_width(t, ...) > max_text_width and
  len(t) > 6: t = t[:-2]\<close>, for the width function \<open>w\<close> of the entry's font.
\<close>

function truncate_title :: "(pystr \<Rightarrow> rat) \<Rightarrow> rat \<Rightarrow> pystr \<Rightarrow> pystr" where
  "truncate_title w max_text_width t =
     (if w t > max_text_width \<and> length t > 6
      then truncate_title w max_text_width (take (length t - 2) t)
      else t)"
  by pat_completeness auto
termination
  by (relation "measure (\<lambda>(w, max_text_width, t). length t)") auto

declare truncate_title.simps [simp del]

text \<open>The title as it is drawn: shortened, and then marked with an ellipsis (U+2026).\<close>

definition fit_title :: "(pystr \<Rightarrow> rat) \<Rightarrow> rat \<Rightarrow> pystr \<Rightarrow> pystr" where
  "fit_title w max_text_width title =
     (let t = truncate_title w max_text_width title
      in if t \<noteq> title then rstrip t @ [8230] else t)"

definition x_text :: "int \<Rightarrow> rat" where
  "x_text level = left + of_int (level - 1) * 8 * mm"

definition title_font :: "int \<Rightarrow> fontname" where
  "title_font level = (if level = 1 then Helvetica_Bold else Helvetica)"

definition max_text_width :: "int \<Rightarrow> rat" where
  "max_text_width level = (page_col_x - 12 * mm) - x_text level"

definition page_str :: "int option \<Rightarrow> pystr" where
  "page_str page = (case page of None \<Rightarrow> [] | Some p \<Rightarrow> str_int p)"

text \<open>
  One turn of the loop over the items, on the cursor \<open>y\<close> and the canvas. The division
  by the width of a dot raises \<open>ZeroDivisionError\<close> when that width is zero.
\<close>

definition draw_item :: "metrics \<Rightarrow> pystr \<Rightarrow> entry \<Rightarrow> rat \<times> canvas \<Rightarrow> error + rat \<times> canvas" where
  "draw_item str_width doc_title item st =
     (case item of (level, title, page) \<Rightarrow>
        (let (y, c) = (if fst st < bottom + line_h
                       then header doc_title (showPage (snd st)) else st);
             fontname = title_font level;
             fontsize = 12;
             c = setFont c fontname fontsize;
             pw = str_width (page_str page) Helvetica 12;
             t = fit_title (\<lambda>s. str_width s fontname fontsize) (max_text_width level) title;
             c = drawString c (x_text level) y t;
             c = setFont c Helvetica 12;
             dot_w = str_width [46] Helvetica 12;
             start = x_text level + str_width t fontname fontsize + 4;
             end_x = page_col_x - pw - 6
         in if end_x > start + dot_w \<and> dot_w = 0 then Inl ZeroDivisionError
            else
              (let c = (if end_x > start + dot_w
                        then drawString c start y
                               (replicate (nat (py_int ((end_x - start) / dot_w))) 46)
                        else c);
                   c = setFont c Helvetica 12;
                   c = drawString c (page_col_x - pw) y (page_str page)
               in Inr (y - line_h, c))))"

fun draw_items :: "metrics \<Rightarrow> pystr \<Rightarrow> entry list \<Rightarrow> rat \<times> canvas \<Rightarrow> error + rat \<times> canvas" where
  "draw_items str_width doc_title [] st = Inr st"
| "draw_items str_width doc_title (item # items) st =
     (case draw_item str_width doc_title item st of
        Inl e \<Rightarrow> Inl e
      | Inr st' \<Rightarrow> draw_items str_width doc_title items st')"

text \<open>\<open>draw_toc_pdf\<close> returns the pages of the file that \<open>c.save()\<close> writes.\<close>

definition draw_toc_pdf :: "metrics \<Rightarrow> pystr \<Rightarrow> entry list \<Rightarrow> error + draw list list" where
  "draw_toc_pdf str_width doc_title items =
     (case draw_items str_width doc_title items (header doc_title Canvas) of
        Inl e \<Rightarrow> Inl e
      | Inr st \<Rightarrow> Inr (save (snd st)))"

subsection \<open>What the pages are compared with\<close>

text \<open>The two strings of the header of a page.\<close>

definition header_ops :: "pystr \<Rightarrow> draw list" where
  "header_ops doc_title =
     [DrawString left top_y doc_title Helvetica_Bold 18,
      DrawString left (top_y - 20 * mm)
        (lit ''Inhaltsverzeichnis (aus PDF-Lesezeichen)'') Helvetica 11]"

text \<open>The cursor below the header.\<close>

definition first_y :: rat where
  "first_y = top_y - 20 * mm - 10 * mm"

text \<open>
  The line of one entry at the height \<open>y\<close>: the title as drawn, the dot leader when
  there is room for one, and the page number.
\<close>

definition line_ops :: "metrics \<Rightarrow> rat \<Rightarrow> entry \<Rightarrow> draw list" where
  "line_ops str_width y item =
     (case item of (level, title, page) \<Rightarrow>
        (let pw = str_width (page_str page) Helvetica 12;
             t = fit_title (\<lambda>s. str_width s (title_font level) 12) (max_text_width level) title;
             dot_w = str_width [46] Helvetica 12;
             start = x_text level + str_width t (title_font level) 12 + 4;
             end_x = page_col_x - pw - 6
         in [DrawString (x_text level) y t (title_font level) 12] @
            (if end_x > start + dot_w
             then [DrawString start y (replicate (nat (py_int ((end_x - start) / dot_w))) 46)
                     Helvetica 12]
             else []) @
            [DrawString (page_col_x - pw) y (page_str page) Helvetica 12]))"

fun lines_from :: "metrics \<Rightarrow> rat \<Rightarrow> entry list \<Rightarrow> draw list" where
  "lines_from str_width y [] = []"
| "lines_from str_width y (item # items) =
     line_ops str_width y item @ lines_from str_width (y - line_h) items"

text \<open>A page that holds the header and, from the top, the lines of a run of entries.\<close>

definition page_ops :: "metrics \<Rightarrow> pystr \<Rightarrow> entry list \<Rightarrow> draw list" where
  "page_ops str_width doc_title chunk =
     header_ops doc_title @ lines_from str_width first_y chunk"

text \<open>The state of the loop while it fills the page of the run \<open>chunk\<close>.\<close>

definition on_page :: "metrics \<Rightarrow> pystr \<Rightarrow> entry list \<Rightarrow> rat \<times> canvas \<Rightarrow> bool" where
  "on_page str_width doc_title chunk st \<longleftrightarrow>
     code (snd st) = page_ops str_width doc_title chunk \<and>
     fst st = first_y - of_nat (length chunk) * line_h"

text \<open>
  Metrics for the examples: every character is half as wide as the font is high.
\<close>

definition half_em :: metrics where
  "half_em s fontname fontsize = of_nat (length s) * of_int fontsize / 2"

section \<open>Worksheets\<close>

text \<open>
  The value of a cell is \<open>None\<close>, a string or an integer: what this program writes.
  A worksheet is the collection of its cells, each with its (row, column) position
  (rows and columns count from 1); a later binding of a position is hidden by an
  earlier one. A workbook file is modelled by the worksheet it holds: loading a saved
  file gives the cells that were saved.
\<close>

datatype pyval = StrV pystr | IntV int

type_synonym cellval = "pyval option"

type_synonym sheet = "((nat \<times> nat) \<times> cellval) list"

text \<open>\<open>ws.max_row\<close>: the greatest row that has a cell, 1 for a sheet without cells.\<close>

definition max_row :: "sheet \<Rightarrow> nat" where
  "max_row ws = foldr max (map (\<lambda>kv. fst (fst kv)) ws) 1"

text \<open>
  \<open>ws.cell(r, c)\<close> creates the cell, empty, when the sheet has none at the position;
  \<open>cell\<close> is the sheet after the call and \<open>cell_value\<close> is what \<open>.value\<close> reads.
\<close>

definition cell :: "sheet \<Rightarrow> nat \<Rightarrow> nat \<Rightarrow> sheet" where
  "cell ws r c = (if map_of ws (r, c) = None then ((r, c), None) # ws else ws)"

definition cell_value :: "sheet \<Rightarrow> nat \<Rightarrow> nat \<Rightarrow> cellval" where
  "cell_value ws r c = (case map_of ws (r, c) of None \<Rightarrow> None | Some v \<Rightarrow> v)"

text \<open>\<open>ws.cell(r, c).value = v\<close>\<close>

definition set_value :: "sheet \<Rightarrow> nat \<Rightarrow> nat \<Rightarrow> cellval \<Rightarrow> sheet" where
  "set_value ws r c v = ((r, c), v) # ws"

text \<open>
  The loop that clears the demo rows of a copied template: columns 1 to 3 of the rows
  2 to \<open>max_row\<close>, the bound taken before the loop starts.
\<close>

definition clear_row :: "sheet \<Rightarrow> nat \<Rightarrow> sheet" where
  "clear_row ws r = fold (\<lambda>c ws. set_value ws r c None) [1..<4] ws"

definition clear_rows :: "sheet \<Rightarrow> sheet" where
  "clear_rows ws = fold (\<lambda>r ws. clear_row ws r) [2..<max_row ws + 1] ws"

text \<open>
  \<open>("    " * (level - 1)) + title\<close>; a string repeated a negative number of times is
  empty.
\<close>

definition indented :: "int \<Rightarrow> pystr \<Rightarrow> pystr" where
  "indented level title = concat (replicate (nat (level - 1)) (lit ''    '')) @ title"



section \<open>The master ledger\<close>

type_synonym row = "pystr \<times> pystr \<times> int option"

type_synonym triple = "cellval \<times> cellval \<times> cellval"

text \<open>The tuple \<open>rowvals\<close> as cell values.\<close>

definition row_values :: "row \<Rightarrow> triple" where
  "row_values rowvals =
     (case rowvals of (a, b, c) \<Rightarrow>
        (Some (StrV a), Some (StrV b), (case c of None \<Rightarrow> None | Some p \<Rightarrow> Some (IntV p))))"

text \<open>The loop that collects the set \<open>existing\<close>, over the rows of \<open>range(2, max_row + 1)\<close>.\<close>

fun existing_rows :: "sheet \<Rightarrow> nat list \<Rightarrow> triple set \<Rightarrow> triple set \<times> sheet" where
  "existing_rows ws [] existing = (existing, ws)"
| "existing_rows ws (r # rs) existing =
     (let a = cell_value ws r 1; ws = cell ws r 1;
          b = cell_value ws r 2; ws = cell ws r 2;
          c = cell_value ws r 3; ws = cell ws r 3
      in if a = None \<and> b = None \<and> c = None then existing_rows ws rs existing
         else existing_rows ws rs (insert (a, b, c) existing))"

text \<open>
  \<open>any(ws.cell(r, c).value is not None for c in (1, 2, 3))\<close>: the generator stops at
  the first column that holds a value.
\<close>

definition any_value :: "sheet \<Rightarrow> nat \<Rightarrow> bool \<times> sheet" where
  "any_value ws r =
     (let ws = cell ws r 1 in
      if cell_value ws r 1 \<noteq> None then (True, ws)
      else
        (let ws = cell ws r 2 in
         if cell_value ws r 2 \<noteq> None then (True, ws)
         else (let ws = cell ws r 3 in (cell_value ws r 3 \<noteq> None, ws))))"

text \<open>The search for the first empty row, with its cutoff 20000 rows below \<open>max_row\<close>.\<close>

function first_empty_row :: "sheet \<Rightarrow> nat \<Rightarrow> nat \<times> sheet" where
  "first_empty_row ws r =
     (case any_value ws r of
        (found, ws') \<Rightarrow>
          if found then
            (if r + 1 > max_row ws' + 20000 then (r + 1, ws')
             else first_empty_row ws' (r + 1))
          else (r, ws'))"
  by pat_completeness auto
termination
proof (relation "measure (\<lambda>(ws, r). max_row ws + 20001 - r)")
  show "wf (measure (\<lambda>(ws, r). max_row ws + 20001 - r))"
    by simp
next
  fix ws :: sheet and r :: nat and found ws'
  assume p: "(found, ws') = any_value ws r" and found: found
    and bound: "\<not> max_row ws' + 20000 < r + 1"
  from p have x: "any_value ws r = (found, ws')" by simp
  have key: "r' \<le> max_row s" if "map_of s (r', c) = Some v" for s :: sheet and r' c v
    using that by (induction s) (auto simp: max_row_def split: if_splits)
  have val: "map_of s (r', c) \<noteq> None" if "cell_value s r' c \<noteq> None" for s :: sheet and r' c
    using that by (auto simp: cell_value_def split: option.splits)
  have same: "max_row (cell s r c) = max_row s" if "r \<le> max_row s" for s :: sheet and c
    using that by (simp add: cell_def max_row_def)
  have grow: "max_row s \<le> max_row (cell s r c)" for s :: sheet and c
    by (simp add: cell_def max_row_def)
  have keep: "cell_value (cell s r c) r' c' = cell_value s r' c'" for s :: sheet and c r' c'
    by (auto simp: cell_def cell_value_def)
  have "r \<le> max_row ws"
  proof -
    from x found obtain c where "cell_value ws r c \<noteq> None"
      by (auto simp: any_value_def Let_def keep split: if_splits)
    then obtain v where "map_of ws (r, c) = Some v"
      using val by blast
    then show ?thesis by (rule key)
  qed
  then have "max_row ws' = max_row ws"
    using x by (auto simp: any_value_def Let_def same split: if_splits)
  with bound show "((ws', r + 1), ws, r) \<in> measure (\<lambda>(ws, r). max_row ws + 20001 - r)"
    by simp
qed

declare first_empty_row.simps [simp del]

text \<open>The loop that writes the incoming rows from the row \<open>r\<close> on.\<close>

fun append_rows :: "sheet \<Rightarrow> nat \<Rightarrow> row list \<Rightarrow> bool \<Rightarrow> triple set \<Rightarrow> sheet" where
  "append_rows ws r [] dedupe existing = ws"
| "append_rows ws r (rowvals # rows) dedupe existing =
     (if dedupe \<and> row_values rowvals \<in> existing
      then append_rows ws r rows dedupe existing
      else append_rows
             (set_value
                (set_value
                   (set_value ws r 1 (fst (row_values rowvals)))
                   r 2 (fst (snd (row_values rowvals))))
                r 3 (snd (snd (row_values rowvals))))
             (r + 1) rows dedupe existing)"

text \<open>
  \<open>append_master\<close>, from the master file (\<open>None\<close> when it does not exist yet) and the
  template file to the worksheet saved as the master file.
\<close>

definition append_master :: "sheet option \<Rightarrow> sheet option \<Rightarrow> row list \<Rightarrow> bool \<Rightarrow> error + sheet" where
  "append_master master template_xlsx rows dedupe =
     (case (case master of
              Some ws \<Rightarrow> Inr ws
            | None \<Rightarrow>
                (case template_xlsx of
                   None \<Rightarrow> Inl FileNotFoundError
                 | Some template \<Rightarrow> Inr (clear_rows template))) of
        Inl e \<Rightarrow> Inl e
      | Inr ws \<Rightarrow>
          (case (if dedupe then existing_rows ws [2..<max_row ws + 1] {} else ({}, ws)) of
             (existing, ws1) \<Rightarrow>
               (case first_empty_row ws1 2 of
                  (r, ws2) \<Rightarrow> Inr (append_rows ws2 r rows dedupe existing))))"

subsection \<open>What the sheets are compared with\<close>

text \<open>The three columns of a row, and the row that holds nothing.\<close>

definition row_triple :: "sheet \<Rightarrow> nat \<Rightarrow> triple" where
  "row_triple ws r = (cell_value ws r 1, cell_value ws r 2, cell_value ws r 3)"

definition blank :: triple where
  "blank = (None, None, None)"

text \<open>The data rows of a sheet: the rows from row 2 on that are not blank, in order.\<close>

definition ledger_rows :: "sheet \<Rightarrow> triple list" where
  "ledger_rows ws = filter (\<lambda>t. t \<noteq> blank) (map (row_triple ws) [2..<max_row ws + 1])"


text \<open>
  The data rows follow each other from row 2 on: below a blank row there is no data
  row.
\<close>

definition contiguous :: "sheet \<Rightarrow> bool" where
  "contiguous ws \<longleftrightarrow>
     (\<forall>r \<in> set [2..<max_row ws + 1]. \<forall>r' \<in> set [r..<max_row ws + 1].
        row_triple ws r = blank \<longrightarrow> row_triple ws r' = blank)"

text \<open>The incoming rows that a merge writes: with dedupe, those not among the data rows.\<close>

definition kept_rows :: "sheet \<Rightarrow> bool \<Rightarrow> row list \<Rightarrow> row list" where
  "kept_rows ws dedupe rows =
     filter (\<lambda>rowvals. \<not> (dedupe \<and> row_values rowvals \<in> set (ledger_rows ws))) rows"


text \<open>The column \<open>c\<close> of a row, for the columns 1 to 3.\<close>

definition triple_col :: "nat \<Rightarrow> triple \<Rightarrow> cellval" where
  "triple_col c t = (if c = 1 then fst t else if c = 2 then fst (snd t) else snd (snd t))"


subsection \<open>Sheets for the examples\<close>




section \<open>The batch run\<close>






text \<open>
  The tuple appended to \<open>master_rows\<close> for an entry; \<open>int(page) if page else None\<close>
  gives \<open>None\<close> for the page 0 as well.
\<close>

definition master_row :: "pystr \<Rightarrow> entry \<Rightarrow> row" where
  "master_row doc_title item =
     (case item of (level, title, page) \<Rightarrow>
        (doc_title, indented level title,
         (case page of None \<Rightarrow> None | Some p \<Rightarrow> if p = 0 then None else Some p)))"




subsection \<open>The start button\<close>





subsection \<open>What a run is compared with\<close>




text \<open>The rows that a source file adds to the ledger when it succeeds.\<close>

definition pdf_rows :: "pystr \<times> pdf \<Rightarrow> row list" where
  "pdf_rows pdf_path =
     (case extract_bookmarks (snd pdf_path) of
        Inl e \<Rightarrow> []
      | Inr items \<Rightarrow> map (master_row (fst pdf_path)) items)"






lemma walk_outline_nested:
  "walk_outline seq level i items = items @ concat (map (nested_entries level) (drop i seq))"
proof (induction seq level i items rule: walk_outline.induct)
  case (1 seq level i items)
  show ?case
  proof (cases "i < length seq")
    case False
    then show ?thesis by (simp add: walk_outline.simps [of seq level i items])
  next
    case True
    then have dr: "drop i seq = seq ! i # drop (Suc i) seq"
      by (simp add: Cons_nth_drop_Suc)
    show ?thesis
    proof (cases "seq ! i")
      case (Sub it)
      from "1.IH"(4) [OF True Sub]
      have a: "walk_outline it (level + 1) 0 items
                 = items @ concat (map (nested_entries (level + 1)) it)"
        by simp
      from "1.IH"(5) [OF True Sub]
      have b: "walk_outline seq level (i + 1) (walk_outline it (level + 1) 0 items)
                 = walk_outline it (level + 1) 0 items
                   @ concat (map (nested_entries level) (drop (i + 1) seq))" .
      from True Sub a b dr show ?thesis
        by (simp add: walk_outline.simps [of seq level i items])
    next
      case (Dest ta os dp ch)
      show ?thesis
      proof (cases "i + 1 < length seq \<and> is_list (seq ! (i + 1))")
        case yes: True
        then obtain xs where xs: "seq ! (i + 1) = Sub xs"
          by (cases "seq ! (i + 1)") auto
        from yes have dr2: "drop (Suc i) seq = seq ! (i + 1) # drop (i + 2) seq"
          by (simp add: Cons_nth_drop_Suc)
        from "1.IH"(1) [OF True Dest yes]
        have a: "walk_outline xs (level + 1) 0 (items @ [item_entry level ta os dp])
                   = (items @ [item_entry level ta os dp])
                     @ concat (map (nested_entries (level + 1)) xs)"
          using xs by simp
        from "1.IH"(2) [OF True Dest yes]
        have b: "walk_outline seq level (i + 2)
                   (walk_outline (sub_items (seq ! (i + 1))) (level + 1) 0
                      (items @ [item_entry level ta os dp]))
                 = walk_outline (sub_items (seq ! (i + 1))) (level + 1) 0
                      (items @ [item_entry level ta os dp])
                   @ concat (map (nested_entries level) (drop (i + 2) seq))" .
        from True Dest yes xs a b dr dr2 show ?thesis
          by (simp add: walk_outline.simps [of seq level i items])
      next
        case no: False
        from "1.IH"(3) [OF True Dest no]
        have b: "walk_outline seq level (i + 1) (items @ [item_entry level ta os dp])
                 = (items @ [item_entry level ta os dp])
                   @ concat (map (nested_entries level) (drop (i + 1) seq))" .
        from True Dest no b dr show ?thesis
          by (auto simp add: walk_outline.simps [of seq level i items])
      qed
    qed
  qed
qed

lemma nested_outline_entries:
  "attr_free x \<Longrightarrow> nested_entries level x = outline_entries level x"
proof (induction level x rule: nested_entries.induct)
  case (1 level ta os dp ch)
  then show ?case by simp
next
  case (2 level xs)
  have "map (nested_entries (level + 1)) xs = map (outline_entries (level + 1)) xs"
  proof (rule map_cong [OF refl])
    fix x assume "x \<in> set xs"
    with "2.prems" have "attr_free x" by (simp add: list_all_iff)
    with "2.IH" \<open>x \<in> set xs\<close> show "nested_entries (level + 1) x = outline_entries (level + 1) x"
      by simp
  qed
  then show ?case by (simp only: nested_entries.simps outline_entries.simps)
qed

lemma length_outline_entries: "length (outline_entries level x) = node_count x"
proof (induction level x rule: outline_entries.induct)
  case (1 level ta os dp ch)
  have "map (\<lambda>x. length (outline_entries (level + 1) x)) ch = map node_count ch"
    using "1.IH" by (intro map_cong) auto
  then have "sum_list (map (\<lambda>x. length (outline_entries (level + 1) x)) ch)
               = sum_list (map node_count ch)"
    by (rule arg_cong)
  then show ?case by (simp add: length_concat comp_def)
next
  case (2 level xs)
  have "map (\<lambda>x. length (outline_entries (level + 1) x)) xs = map node_count xs"
    using "2.IH" by (intro map_cong) auto
  then have "sum_list (map (\<lambda>x. length (outline_entries (level + 1) x)) xs)
               = sum_list (map node_count xs)"
    by (rule arg_cong)
  then show ?case by (simp add: length_concat comp_def)
qed

lemma nested_entries_Nil: "nested_entries level x = [] \<longleftrightarrow> node_count x = 0"
proof (induction level x rule: nested_entries.induct)
  case (1 level ta os dp ch)
  then show ?case by simp
next
  case (2 level xs)
  then show ?case by auto
qed


lemma rstrip_take: "rstrip u = take (length (rstrip u)) u"
proof -
  have "dropWhile py_isspace (rev u)
          = drop (length (takeWhile py_isspace (rev u))) (rev u)"
    by (simp add: dropWhile_eq_drop)
  then have "rstrip u = rev (drop (length (takeWhile py_isspace (rev u))) (rev u))"
    by (simp add: rstrip_def)
  also have "\<dots> = take (length u - length (takeWhile py_isspace (rev u))) u"
    by (simp add: rev_drop)
  finally have eq: "rstrip u = take (length u - length (takeWhile py_isspace (rev u))) u" .
  then have "length (rstrip u) = length u - length (takeWhile py_isspace (rev u))"
    by simp
  with eq show ?thesis by simp
qed

lemma rstrip_last: "rstrip u \<noteq> [] \<Longrightarrow> \<not> py_isspace (last (rstrip u))"
proof -
  assume ne: "rstrip u \<noteq> []"
  then have "dropWhile py_isspace (rev u) \<noteq> []"
    by (simp add: rstrip_def)
  then have "\<not> py_isspace (hd (dropWhile py_isspace (rev u)))"
    by (rule hd_dropWhile)
  moreover have "last (rstrip u) = hd (dropWhile py_isspace (rev u))"
    using \<open>dropWhile py_isspace (rev u) \<noteq> []\<close> by (simp add: rstrip_def last_rev)
  ultimately show ?thesis by simp
qed

lemma stripped_strip: "stripped (strip t)"
proof (cases "strip t = []")
  case True
  then show ?thesis by (simp add: stripped_def)
next
  case False
  let ?u = "lstrip t"
  from False have ne: "rstrip ?u \<noteq> []" by (simp add: strip_def)
  then have l: "\<not> py_isspace (last (rstrip ?u))" by (rule rstrip_last)
  from ne have une: "?u \<noteq> []" by (auto simp: rstrip_def)
  then have "\<not> py_isspace (hd ?u)"
    unfolding lstrip_def by (rule hd_dropWhile)
  moreover have "hd (rstrip ?u) = hd ?u"
  proof -
    from ne have "0 < length (rstrip ?u)" by simp
    then have "hd (take (length (rstrip ?u)) ?u) = hd ?u"
      by (simp add: hd_take)
    with rstrip_take [of ?u] show ?thesis by simp
  qed
  ultimately have "\<not> py_isspace (hd (rstrip ?u))" by simp
  with l False show ?thesis by (simp add: stripped_def strip_def)
qed

lemma strip_stripped: "stripped t \<Longrightarrow> strip t = t"
proof (cases "t = []")
  case True
  then show ?thesis by (simp add: strip_def lstrip_def rstrip_def)
next
  case False
  assume "stripped t"
  with False have h: "\<not> py_isspace (hd t)" and l: "\<not> py_isspace (last t)"
    by (simp_all add: stripped_def)
  from False h have "lstrip t = t"
    by (cases t) (simp_all add: lstrip_def)
  moreover from False l have "rstrip t = t"
    by (cases "rev t") (simp_all add: rstrip_def last_rev hd_rev [symmetric] rev_swap flip: hd_rev)
  ultimately show ?thesis by (simp add: strip_def)
qed

lemma nested_entries_stripped:
  "e \<in> set (nested_entries level x) \<Longrightarrow> stripped (entry_title e)"
proof (induction level x arbitrary: e rule: nested_entries.induct)
  case (1 level ta os dp ch)
  then show ?case by (simp add: item_entry_def entry_title_def stripped_strip)
next
  case (2 level xs)
  from "2.prems" obtain x where "x \<in> set xs" and "e \<in> set (nested_entries (level + 1) x)"
    by auto
  then show ?case by (rule "2.IH")
qed

lemma level_steps_ok_append:
  "level_steps_ok (A @ B) \<longleftrightarrow>
     level_steps_ok A \<and> level_steps_ok B \<and> (A \<noteq> [] \<and> B \<noteq> [] \<longrightarrow> hd B \<le> last A + 1)"
proof (induction A rule: level_steps_ok.induct)
  case (1 a b rest)
  then show ?case by auto
next
  case (2 a)
  then show ?case by (cases B) auto
next
  case 3
  then show ?case by simp
qed

lemma level_steps_ok_Cons:
  "level_steps_ok (a # B) \<longleftrightarrow> level_steps_ok B \<and> (B \<noteq> [] \<longrightarrow> hd B \<le> a + 1)"
  by (cases B) auto

lemma level_max_ok_steps:
  "level_steps_ok (a # L) \<Longrightarrow> a \<le> m \<Longrightarrow> level_max_ok m L"
proof (induction L arbitrary: a m)
  case Nil
  then show ?case by simp
next
  case (Cons b L)
  from Cons.prems have "b \<le> a + 1" and "level_steps_ok (b # L)" by simp_all
  moreover from \<open>b \<le> a + 1\<close> Cons.prems have "b \<le> m + 1" by simp
  moreover have "b \<le> max m b" by simp
  ultimately show ?case using Cons.IH [of b "max m b"] by simp
qed

lemma levels_from_Cons_append:
  assumes X: "levels_from (l + 1) X" and R: "levels_from l R"
  shows "levels_from l (l # X @ R)"
proof -
  have lastX: "l + 1 \<le> last X" if "X \<noteq> []"
    using X that last_in_set [of X] by (auto simp: levels_from_def)
  have "hd R \<le> last X + 1" if "X \<noteq> []" and "R \<noteq> []"
  proof -
    from R that have "hd R = l" by (simp add: levels_from_def)
    with lastX [OF that(1)] show ?thesis by simp
  qed
  moreover have "level_steps_ok X" and "level_steps_ok R"
    using X R by (simp_all add: levels_from_def)
  ultimately have "level_steps_ok (X @ R)"
    by (simp add: level_steps_ok_append)
  moreover have "X @ R \<noteq> [] \<longrightarrow> hd (X @ R) \<le> l + 1"
    using X R by (cases "X = []") (auto simp: levels_from_def)
  ultimately have "level_steps_ok (l # X @ R)"
    by (simp only: level_steps_ok_Cons)
  moreover have "\<forall>x \<in> set (l # X @ R). l \<le> x"
    using X R by (fastforce simp: levels_from_def)
  ultimately show ?thesis
    by (simp add: levels_from_def)
qed

lemma levels_from_Cons:
  assumes R: "levels_from l R"
  shows "levels_from l (l # R)"
proof -
  have "levels_from (l + 1) []" by (simp add: levels_from_def)
  from levels_from_Cons_append [OF this R] show ?thesis by simp
qed

lemma well_nested_levels:
  "well_nested seq \<Longrightarrow>
     levels_from l (map entry_level (concat (map (nested_entries l) seq)))"
proof (induction seq arbitrary: l rule: well_nested.induct)
  case 1
  then show ?case by (simp add: levels_from_def)
next
  case (2 xs rest)
  then show ?case by simp
next
  case (3 ta os dp ch xs rest)
  let ?X = "map entry_level (concat (map (nested_entries (l + 1)) xs))"
  let ?R = "map entry_level (concat (map (nested_entries l) rest))"
  from "3.prems" have "well_nested xs" and "well_nested rest" by simp_all
  then have X: "levels_from (l + 1) ?X" and R: "levels_from l ?R"
    using "3.IH" by blast+
  have eq: "map entry_level (concat (map (nested_entries l) (Dest ta os dp ch # Sub xs # rest)))
              = l # ?X @ ?R"
    by (simp add: item_entry_def entry_level_def)
  show ?case
    unfolding eq using X R by (rule levels_from_Cons_append)
next
  case (4 ta os dp ch)
  then show ?case by (simp add: levels_from_def item_entry_def entry_level_def)
next
  case (5 ta os dp ch ta' os' dp' ch' rest)
  let ?R = "map entry_level (concat (map (nested_entries l) (Dest ta' os' dp' ch' # rest)))"
  from "5.prems" have "well_nested (Dest ta' os' dp' ch' # rest)" by simp
  then have R: "levels_from l ?R" by (rule "5.IH")
  have eq: "map entry_level (concat (map (nested_entries l)
               (Dest ta os dp ch # Dest ta' os' dp' ch' # rest))) = l # ?R"
    by (simp add: item_entry_def entry_level_def)
  show ?case
    unfolding eq using R by (rule levels_from_Cons)
qed

lemma extract_bookmarks_nested:
  "extract_bookmarks (Readable outlines) =
     Inr (case outlines of
            Sub seq \<Rightarrow> nested_entries 0 (Sub seq)
          | Dest ta os dp ch \<Rightarrow> nested_entries 1 (Dest ta os dp ch))"
  by (cases outlines) (simp_all add: extract_bookmarks_def walk_outline_nested)

text \<open>
  Claim C1, amended. For an outline whose nesting is written with nested lists only,
  \<open>extract_bookmarks\<close> returns the entries in depth-first pre-order, the root list's
  objects at level 1 and the objects of a nested list one level below the list it
  stands in, one entry for each object. For every outline the result is empty exactly
  when the outline holds no object, and a single object that is no list gives exactly
  one entry.
\<close>

theorem extract_bookmarks_preorder:
  "(attr_free outlines \<longrightarrow>
      extract_bookmarks (Readable outlines) = Inr (preorder_entries outlines) \<and>
      length (preorder_entries outlines) = node_count outlines) \<and>
   (\<exists>items. extract_bookmarks (Readable outlines) = Inr items \<and>
      (items = [] \<longleftrightarrow> node_count outlines = 0) \<and>
      (\<not> is_list outlines \<longrightarrow> length items = 1))"
proof (cases outlines)
  case (Dest ta os dp ch)
  then show ?thesis
    by (simp add: extract_bookmarks_def preorder_entries_def)
next
  case (Sub seq)
  have a: "extract_bookmarks (Readable outlines) = Inr (nested_entries 0 (Sub seq))"
    using Sub by (simp add: extract_bookmarks_nested)
  have b: "attr_free outlines \<Longrightarrow> nested_entries 0 (Sub seq) = preorder_entries outlines"
    using Sub nested_outline_entries [of "Sub seq" 0] by (simp add: preorder_entries_def)
  have c: "length (preorder_entries outlines) = node_count outlines"
    using Sub length_outline_entries [of 0 "Sub seq"] by (simp add: preorder_entries_def)
  have d: "nested_entries 0 (Sub seq) = [] \<longleftrightarrow> node_count outlines = 0"
    using Sub nested_entries_Nil [of 0 "Sub seq"] by simp
  from a b c d Sub show ?thesis by simp
qed

text \<open>
  Claim C1, witness: the outline of the end-to-end example, with a title that carries
  surrounding blanks and an object that has no title attribute.
\<close>

theorem extract_bookmarks_preorder_witness:
  "attr_free (Sub [Dest (Some (lit '' Intro '')) [] (Some 0) [],
                   Sub [Dest (Some (lit ''Background'')) [] (Some 1) []],
                   Dest None (lit ''Methods'') (Some 4) []]) \<and>
   extract_bookmarks (Readable (Sub [Dest (Some (lit '' Intro '')) [] (Some 0) [],
                   Sub [Dest (Some (lit ''Background'')) [] (Some 1) []],
                   Dest None (lit ''Methods'') (Some 4) []]))
     = Inr [(1, lit ''Intro'', Some 1), (2, lit ''Background'', Some 2),
            (1, lit ''Methods'', Some 5)]"
  using extract_bookmarks_preorder
    [of "Sub [Dest (Some (lit '' Intro '')) [] (Some 0) [],
              Sub [Dest (Some (lit ''Background'')) [] (Some 1) []],
              Dest None (lit ''Methods'') (Some 4) []]"]
  by (simp add: preorder_entries_def item_entry_def strip_def lstrip_def rstrip_def
        py_isspace_def lit_def)

text \<open>
  Claim C1, counterexample: an object that carries its child list as an attribute. The
  walk through both conventions has two entries, the child \<open>B\<close> below \<open>A\<close>;
  \<open>extract_bookmarks\<close> returns the entry of \<open>A\<close> only.
\<close>

theorem attribute_children_dropped:
  "extract_bookmarks
     (Readable (Sub [Dest (Some (lit ''A'')) [] (Some 0) [Dest (Some (lit ''B'')) [] (Some 1) []]]))
     = Inr [(1, lit ''A'', Some 1)] \<and>
   preorder_entries
     (Sub [Dest (Some (lit ''A'')) [] (Some 0) [Dest (Some (lit ''B'')) [] (Some 1) []]])
     = [(1, lit ''A'', Some 1), (2, lit ''B'', Some 2)]"
  by (simp add: extract_bookmarks_def walk_outline.simps preorder_entries_def item_entry_def
        strip_def lstrip_def rstrip_def py_isspace_def lit_def)

text \<open>
  Claim C7, amended. For an outline in which every nested list stands right after an
  object, the level never goes up by more than one from an entry to the next, and no
  level is more than one above the greatest level before it.
\<close>

theorem well_nested_level_steps:
  "(is_list outlines \<longrightarrow> well_nested (sub_items outlines)) \<Longrightarrow>
   \<exists>items. extract_bookmarks (Readable outlines) = Inr items \<and>
     level_steps_ok (map entry_level items) \<and> level_max_ok 0 (map entry_level items)"
proof (cases outlines)
  case (Dest ta os dp ch)
  then show ?thesis
    by (simp add: extract_bookmarks_def item_entry_def entry_level_def)
next
  case (Sub seq)
  assume "is_list outlines \<longrightarrow> well_nested (sub_items outlines)"
  with Sub have "well_nested seq" by simp
  then have L: "levels_from 1 (map entry_level (concat (map (nested_entries 1) seq)))"
    by (rule well_nested_levels)
  let ?L = "map entry_level (concat (map (nested_entries 1) seq))"
  have a: "extract_bookmarks (Readable outlines) = Inr (concat (map (nested_entries 1) seq))"
    using Sub by (simp add: extract_bookmarks_nested)
  from L have s: "level_steps_ok ?L" by (simp add: levels_from_def)
  have m: "level_max_ok 0 ?L"
  proof (rule level_max_ok_steps [of 0])
    show "level_steps_ok (0 # ?L)"
      using L by (simp only: level_steps_ok_Cons) (simp add: levels_from_def)
  qed simp
  from a s m show ?thesis by simp
qed

text \<open>
  Claim C7, witness: three levels of nesting, then back to level 1.
\<close>

theorem well_nested_level_steps_witness:
  "extract_bookmarks (Readable (Sub [Dest (Some (lit ''A'')) [] None [],
       Sub [Dest (Some (lit ''B'')) [] None [], Sub [Dest (Some (lit ''C'')) [] None []]],
       Dest (Some (lit ''D'')) [] None []]))
     = Inr [(1, lit ''A'', None), (2, lit ''B'', None), (3, lit ''C'', None),
            (1, lit ''D'', None)] \<and>
   level_steps_ok [1, 2, 3, 1]"
  using well_nested_level_steps
    [of "Sub [Dest (Some (lit ''A'')) [] None [],
       Sub [Dest (Some (lit ''B'')) [] None [], Sub [Dest (Some (lit ''C'')) [] None []]],
       Dest (Some (lit ''D'')) [] None []]"]
  by (simp add: extract_bookmarks_nested item_entry_def strip_def lstrip_def rstrip_def
        py_isspace_def lit_def entry_level_def)

text \<open>
  Claim C7, counterexample: a list nested in a list with no object between them. The
  entry \<open>B\<close> at level 3 follows the entry \<open>A\<close> at level 1.
\<close>

theorem orphan_list_level_jump:
  "extract_bookmarks (Readable (Sub [Dest (Some (lit ''A'')) [] None [],
       Sub [Sub [Dest (Some (lit ''B'')) [] None []]]]))
     = Inr [(1, lit ''A'', None), (3, lit ''B'', None)] \<and>
   \<not> level_steps_ok (map entry_level [(1, lit ''A'', None), (3, lit ''B'', None)]) \<and>
   \<not> level_max_ok 0 (map entry_level [(1, lit ''A'', None), (3, lit ''B'', None)])"
  by (simp add: extract_bookmarks_def walk_outline.simps item_entry_def strip_def lstrip_def
        rstrip_def py_isspace_def lit_def entry_level_def)

text \<open>
  Claim C10. Every title that \<open>extract_bookmarks\<close> returns is stripped: it is empty,
  or neither its first nor its last character is whitespace, and stripping it again
  changes nothing.
\<close>

theorem extract_bookmarks_titles_stripped:
  "extract_bookmarks pdf_path = Inr items \<Longrightarrow> e \<in> set items \<Longrightarrow>
     stripped (entry_title e) \<and> strip (entry_title e) = entry_title e"
proof -
  assume r: "extract_bookmarks pdf_path = Inr items" and e: "e \<in> set items"
  from r obtain outlines where p: "pdf_path = Readable outlines"
    by (cases pdf_path) (simp_all add: extract_bookmarks_def)
  have "stripped (entry_title e)"
  proof (cases outlines)
    case (Dest ta os dp ch)
    with r p e have "e \<in> set (nested_entries 1 (Dest ta os dp ch))"
      by (simp add: extract_bookmarks_nested)
    then show ?thesis by (rule nested_entries_stripped)
  next
    case (Sub seq)
    with r p e have "e \<in> set (nested_entries 0 (Sub seq))"
      by (simp add: extract_bookmarks_nested)
    then show ?thesis by (rule nested_entries_stripped)
  qed
  then show ?thesis by (simp add: strip_stripped)
qed

text \<open>
  Claim C10, witness: a title with blanks on both sides, on the list path.
\<close>

theorem extract_bookmarks_titles_stripped_witness:
  "extract_bookmarks (Readable (Sub [Dest (Some (lit ''  Intro '')) [] (Some 0) []]))
     = Inr [(1, lit ''Intro'', Some 1)] \<and>
   stripped (entry_title (1, lit ''Intro'', Some (1::int))) \<and>
   strip (entry_title (1, lit ''Intro'', Some (1::int))) = entry_title (1, lit ''Intro'', Some (1::int))"
proof -
  have r: "extract_bookmarks (Readable (Sub [Dest (Some (lit ''  Intro '')) [] (Some 0) []]))
     = Inr [(1, lit ''Intro'', Some 1)]"
    by (simp add: extract_bookmarks_nested item_entry_def strip_def lstrip_def rstrip_def
          py_isspace_def lit_def)
  from r extract_bookmarks_titles_stripped [OF r, of "(1, lit ''Intro'', Some 1)"]
  show ?thesis by simp
qed

lemma header_eq:
  "header doc_title c =
     (first_y, c\<lparr>code := code c @ header_ops doc_title, font := (Helvetica, 11)\<rparr>)"
  by (simp add: header_def Let_def setFont_def drawString_def header_ops_def first_y_def)

lemma draw_item_eq:
  assumes dot: "str_width [46] Helvetica 12 \<noteq> 0"
  shows "draw_item str_width doc_title item st =
     (let st1 = (if fst st < bottom + line_h then header doc_title (showPage (snd st)) else st)
      in Inr (fst st1 - line_h,
              (snd st1)\<lparr>code := code (snd st1) @ line_ops str_width (fst st1) item,
                         font := (Helvetica, 12)\<rparr>))"
proof (cases item)
  case (fields level title page)
  show ?thesis
  proof (cases "fst st < bottom + line_h")
    case True
    with dot fields show ?thesis
      by (simp add: draw_item_def line_ops_def Let_def header_eq setFont_def drawString_def
            showPage_def)
  next
    case False
    with dot fields show ?thesis
      by (cases st)
         (simp add: draw_item_def line_ops_def Let_def setFont_def drawString_def)
  qed
qed

lemma lines_from_snoc:
  "lines_from str_width y (chunk @ [item]) =
     lines_from str_width y chunk @ line_ops str_width (y - of_nat (length chunk) * line_h) item"
  by (induction chunk arbitrary: y) (simp_all add: algebra_simps)

lemma draw_item_step:
  assumes dot: "str_width [46] Helvetica 12 \<noteq> 0"
    and on: "on_page str_width doc_title chunk st"
  shows "\<exists>st'. draw_item str_width doc_title item st = Inr st' \<and>
           ((pages (snd st') = pages (snd st) \<and>
             on_page str_width doc_title (chunk @ [item]) st') \<or>
            (pages (snd st') = pages (snd st) @ [page_ops str_width doc_title chunk] \<and>
             on_page str_width doc_title [item] st'))"
proof (cases "fst st < bottom + line_h")
  case True
  with on show ?thesis
    by (simp add: draw_item_eq [where str_width = str_width, OF dot] header_eq showPage_def on_page_def page_ops_def Let_def)
next
  case False
  from on have c: "code (snd st) = page_ops str_width doc_title chunk"
    and y: "fst st = first_y - of_nat (length chunk) * line_h"
    by (simp_all add: on_page_def)
  have y': "fst st - line_h = first_y - of_nat (length (chunk @ [item])) * line_h"
    by (simp add: y algebra_simps)
  have "page_ops str_width doc_title (chunk @ [item])
          = page_ops str_width doc_title chunk @ line_ops str_width (fst st) item"
    by (simp add: page_ops_def lines_from_snoc y)
  with False c y' show ?thesis
    by (simp add: draw_item_eq [where str_width = str_width, OF dot] on_page_def Let_def)
qed

lemma draw_items_pages:
  assumes dot: "str_width [46] Helvetica 12 \<noteq> 0"
  shows "on_page str_width doc_title chunk st \<Longrightarrow>
         pages (snd st) = map (page_ops str_width doc_title) chunks \<Longrightarrow>
         \<exists>st' chunks' chunk'.
           draw_items str_width doc_title items st = Inr st' \<and>
           pages (snd st') = map (page_ops str_width doc_title) chunks' \<and>
           on_page str_width doc_title chunk' st' \<and>
           concat chunks' @ chunk' = concat chunks @ chunk @ items"
proof (induction items arbitrary: st chunk chunks)
  case Nil
  then show ?case by auto
next
  case (Cons item items)
  from draw_item_step [OF dot Cons.prems(1), of item]
  obtain st1 where d: "draw_item str_width doc_title item st = Inr st1"
    and alt: "(pages (snd st1) = pages (snd st) \<and>
                 on_page str_width doc_title (chunk @ [item]) st1) \<or>
              (pages (snd st1) = pages (snd st) @ [page_ops str_width doc_title chunk] \<and>
                 on_page str_width doc_title [item] st1)"
    by blast
  from alt show ?case
  proof
    assume a: "pages (snd st1) = pages (snd st) \<and>
                 on_page str_width doc_title (chunk @ [item]) st1"
    with Cons.prems(2) have "pages (snd st1) = map (page_ops str_width doc_title) chunks"
      by simp
    from Cons.IH [OF conjunct2 [OF a] this] d show ?thesis
      by auto
  next
    assume b: "pages (snd st1) = pages (snd st) @ [page_ops str_width doc_title chunk] \<and>
                 on_page str_width doc_title [item] st1"
    with Cons.prems(2)
    have "pages (snd st1) = map (page_ops str_width doc_title) (chunks @ [chunk])"
      by simp
    from Cons.IH [OF conjunct2 [OF b] this] d show ?thesis
      by auto
  qed
qed

text \<open>
  Claim C2. When a dot has a width, \<open>draw_toc_pdf\<close> returns pages that split the
  items into consecutive runs: the page of a run holds the header and then, from the
  top, the line of each entry of the run, all strings of a line on that page. The runs
  put one after the other are the items.
\<close>

theorem draw_toc_pdf_pages:
  assumes dot: "str_width [46] Helvetica 12 \<noteq> 0"
  shows "\<exists>chunks. concat chunks = items \<and>
           draw_toc_pdf str_width doc_title items
             = Inr (map (page_ops str_width doc_title) chunks)"
proof -
  have on: "on_page str_width doc_title [] (header doc_title Canvas)"
    by (simp add: header_eq on_page_def page_ops_def Canvas_def)
  have pg: "pages (snd (header doc_title Canvas)) = map (page_ops str_width doc_title) []"
    by (simp add: header_eq Canvas_def)
  from draw_items_pages [OF dot on pg, of items]
  obtain st' chunks' chunk' where
    d: "draw_items str_width doc_title items (header doc_title Canvas) = Inr st'" and
    p: "pages (snd st') = map (page_ops str_width doc_title) chunks'" and
    o: "on_page str_width doc_title chunk' st'" and
    c: "concat chunks' @ chunk' = concat [] @ [] @ items"
    by blast
  from o have "code (snd st') \<noteq> []"
    by (simp add: on_page_def page_ops_def header_ops_def)
  with p o have "save (snd st') = map (page_ops str_width doc_title) (chunks' @ [chunk'])"
    by (simp add: save_def showPage_def on_page_def)
  moreover from c have "concat (chunks' @ [chunk']) = items" by simp
  moreover from d have "draw_toc_pdf str_width doc_title items = Inr (save (snd st'))"
    by (simp add: draw_toc_pdf_def)
  ultimately have "concat (chunks' @ [chunk']) = items \<and>
      draw_toc_pdf str_width doc_title items
        = Inr (map (page_ops str_width doc_title) (chunks' @ [chunk']))"
    by simp
  then show ?thesis by (rule exI)
qed

lemma truncate_title_take:
  "\<exists>k. truncate_title w mx t = take (length t - 2 * k) t \<and>
       (k = 0 \<longleftrightarrow> \<not> (w t > mx \<and> length t > 6)) \<and>
       (length t > 6 \<longrightarrow> 5 \<le> length t - 2 * k) \<and>
       (w (truncate_title w mx t) \<le> mx \<or> length (truncate_title w mx t) \<le> 6) \<and>
       (\<forall>j < k. w (take (length t - 2 * j) t) > mx \<and> length t - 2 * j > 6)"
proof (induction w mx t rule: truncate_title.induct)
  case (1 w mx t)
  show ?case
  proof (cases "w t > mx \<and> length t > 6")
    case False
    then have "truncate_title w mx t = t"
      by (subst truncate_title.simps) auto
    with False show ?thesis
      by (intro exI [of _ 0]) auto
  next
    case True
    let ?t' = "take (length t - 2) t"
    from True have eq: "truncate_title w mx t = truncate_title w mx ?t'"
      by (subst truncate_title.simps) simp
    from "1.IH" [OF True] obtain k where
      k: "truncate_title w mx ?t' = take (length ?t' - 2 * k) ?t'" and
      k5: "length ?t' > 6 \<longrightarrow> 5 \<le> length ?t' - 2 * k" and
      k0: "k = 0 \<longleftrightarrow> \<not> (w ?t' > mx \<and> length ?t' > 6)" and
      fit: "w (truncate_title w mx ?t') \<le> mx \<or> length (truncate_title w mx ?t') \<le> 6" and
      first: "\<forall>j < k. w (take (length ?t' - 2 * j) ?t') > mx \<and> length ?t' - 2 * j > 6"
      by blast
    from True have len: "length ?t' = length t - 2" by simp
    have tk: "take (length ?t' - 2 * j) ?t' = take (length t - 2 * (Suc j)) t" for j
      by (simp add: len min_def)
    have "5 \<le> length t - 2 * Suc k"
    proof (cases "length ?t' > 6")
      case True
      with k5 len show ?thesis by simp
    next
      case False
      with k0 have "k = 0" by simp
      with True show ?thesis by auto
    qed
    moreover have "\<forall>j < Suc k. w (take (length t - 2 * j) t) > mx \<and> length t - 2 * j > 6"
    proof (intro allI impI)
      fix j assume j: "j < Suc k"
      show "w (take (length t - 2 * j) t) > mx \<and> length t - 2 * j > 6"
      proof (cases j)
        case 0
        with True show ?thesis by simp
      next
        case (Suc j')
        with j have "j' < k" by simp
        with first have "w (take (length ?t' - 2 * j') ?t') > mx \<and> length ?t' - 2 * j' > 6"
          by blast
        with tk [of j'] len Suc show ?thesis by simp
      qed
    qed
    ultimately show ?thesis
      using eq k fit True tk [of k] by (intro exI [of _ "Suc k"]) auto
  qed
qed

lemma length_rstrip_le: "length (rstrip t) \<le> length t"
  by (simp add: rstrip_def) (metis length_dropWhile_le length_rev)

text \<open>
  Claim C3, amended. A title that fits, or that has at most 6 characters, is drawn as it
  is. A title that is too wide and has more than 6 characters is cut from its end two
  characters at a time: \<open>k\<close> turns, at least one, where before each turn the part
  kept so far is too wide and longer than 6 characters, and after the last turn the
  kept part fits or has at most 6 characters. At least 5 characters are kept. The kept
  part, without its trailing whitespace, and an ellipsis are drawn: a string shorter
  than the title.
\<close>

theorem fit_title_truncates:
  fixes str_width :: metrics
  shows
  "(str_width title (title_font level) 12 \<le> max_text_width level \<or> length title \<le> 6 \<longrightarrow>
      fit_title (\<lambda>s. str_width s (title_font level) 12) (max_text_width level) title = title) \<and>
   (str_width title (title_font level) 12 > max_text_width level \<and> length title > 6 \<longrightarrow>
      (\<exists>k. 1 \<le> k \<and> 5 \<le> length title - 2 * k \<and>
         (\<forall>j < k. str_width (take (length title - 2 * j) title) (title_font level) 12
                    > max_text_width level \<and> length title - 2 * j > 6) \<and>
         (str_width (take (length title - 2 * k) title) (title_font level) 12
            \<le> max_text_width level \<or> length title - 2 * k \<le> 6) \<and>
         fit_title (\<lambda>s. str_width s (title_font level) 12) (max_text_width level) title
           = rstrip (take (length title - 2 * k) title) @ [8230]) \<and>
      length (fit_title (\<lambda>s. str_width s (title_font level) 12) (max_text_width level) title)
        < length title \<and>
      last (fit_title (\<lambda>s. str_width s (title_font level) 12) (max_text_width level) title)
        = 8230)"
proof -
  let ?w = "\<lambda>s. str_width s (title_font level) 12"
  let ?mx = "max_text_width level"
  from truncate_title_take [of ?w ?mx title] obtain k where
    k: "truncate_title ?w ?mx title = take (length title - 2 * k) title" and
    k0: "k = 0 \<longleftrightarrow> \<not> (?w title > ?mx \<and> length title > 6)" and
    k5: "length title > 6 \<longrightarrow> 5 \<le> length title - 2 * k" and
    fit: "?w (truncate_title ?w ?mx title) \<le> ?mx \<or> length (truncate_title ?w ?mx title) \<le> 6" and
    first: "\<forall>j < k. ?w (take (length title - 2 * j) title) > ?mx \<and> length title - 2 * j > 6"
    by blast
  have a: "fit_title ?w ?mx title = title" if "?w title \<le> ?mx \<or> length title \<le> 6"
  proof -
    from that k0 have "k = 0" by auto
    with k show ?thesis by (simp add: fit_title_def)
  qed
  have b: "(\<exists>k. 1 \<le> k \<and> 5 \<le> length title - 2 * k \<and>
         (\<forall>j < k. ?w (take (length title - 2 * j) title) > ?mx \<and> length title - 2 * j > 6) \<and>
         (?w (take (length title - 2 * k) title) \<le> ?mx \<or> length title - 2 * k \<le> 6) \<and>
         fit_title ?w ?mx title = rstrip (take (length title - 2 * k) title) @ [8230]) \<and>
      length (fit_title ?w ?mx title) < length title \<and>
      last (fit_title ?w ?mx title) = 8230"
    if over: "?w title > ?mx \<and> length title > 6"
  proof -
    from over k0 have k1: "1 \<le> k" by auto
    from over k5 have five: "5 \<le> length title - 2 * k" by simp
    with k1 have shorter: "length (take (length title - 2 * k) title) < length title"
      by simp
    then have ne: "take (length title - 2 * k) title \<noteq> title"
      by (metis less_irrefl)
    with k have r: "fit_title ?w ?mx title = rstrip (take (length title - 2 * k) title) @ [8230]"
      by (simp add: fit_title_def)
    from fit k five
    have f: "?w (take (length title - 2 * k) title) \<le> ?mx \<or> length title - 2 * k \<le> 6"
      by auto
    have "length (rstrip (take (length title - 2 * k) title)) \<le> length title - 2 * k"
      using length_rstrip_le [of "take (length title - 2 * k) title"] by simp
    with k1 five have lt: "length (rstrip (take (length title - 2 * k) title) @ [8230]) < length title"
      by simp
    have "1 \<le> k \<and> 5 \<le> length title - 2 * k \<and>
         (\<forall>j < k. ?w (take (length title - 2 * j) title) > ?mx \<and> length title - 2 * j > 6) \<and>
         (?w (take (length title - 2 * k) title) \<le> ?mx \<or> length title - 2 * k \<le> 6) \<and>
         fit_title ?w ?mx title = rstrip (take (length title - 2 * k) title) @ [8230]"
      using k1 five first f r by blast
    then have "\<exists>k. 1 \<le> k \<and> 5 \<le> length title - 2 * k \<and>
         (\<forall>j < k. ?w (take (length title - 2 * j) title) > ?mx \<and> length title - 2 * j > 6) \<and>
         (?w (take (length title - 2 * k) title) \<le> ?mx \<or> length title - 2 * k \<le> 6) \<and>
         fit_title ?w ?mx title = rstrip (take (length title - 2 * k) title) @ [8230]"
      by (rule exI)
    with lt r show ?thesis by simp
  qed
  from a b show ?thesis by blast
qed

text \<open>
  Claim C3, witness: at level 17 the column is 56.7 points wide; nine characters of the
  title are kept, the blank at their end is removed. At level 1 a short title fits.
\<close>

theorem fit_title_truncates_witness:
  "half_em (lit ''Overview of results'') (title_font 17) 12 > max_text_width 17 \<and>
   length (lit ''Overview of results'') > 6 \<and>
   fit_title (\<lambda>s. half_em s (title_font 17) 12) (max_text_width 17)
     (lit ''Overview of results'') = lit ''Overview'' @ [8230] \<and>
   length (fit_title (\<lambda>s. half_em s (title_font 17) 12) (max_text_width 17)
     (lit ''Overview of results'')) < length (lit ''Overview of results'') \<and>
   fit_title (\<lambda>s. half_em s (title_font 1) 12) (max_text_width 1) (lit ''Intro'') = lit ''Intro''"
proof -
  have over: "half_em (lit ''Overview of results'') (title_font 17) 12 > max_text_width 17 \<and>
      length (lit ''Overview of results'') > 6"
    by (simp add: half_em_def max_text_width_def x_text_def page_col_x_def width_def A4_def
          right_def left_def mm_def lit_def)
  have fits: "half_em (lit ''Intro'') (title_font 1) 12 \<le> max_text_width 1 \<or>
      length (lit ''Intro'') \<le> 6"
    by (simp add: lit_def)
  have val: "fit_title (\<lambda>s. half_em s (title_font 17) 12) (max_text_width 17)
     (lit ''Overview of results'') = lit ''Overview'' @ [8230]"
    by (simp add: half_em_def max_text_width_def x_text_def page_col_x_def width_def A4_def
          right_def left_def mm_def lit_def fit_title_def truncate_title.simps rstrip_def
          py_isspace_def)
  from fit_title_truncates [of half_em "lit ''Overview of results''" 17] over
  have "length (fit_title (\<lambda>s. half_em s (title_font 17) 12) (max_text_width 17)
     (lit ''Overview of results'')) < length (lit ''Overview of results'')"
    by blast
  moreover from fit_title_truncates [of half_em "lit ''Intro''" 1] fits
  have "fit_title (\<lambda>s. half_em s (title_font 1) 12) (max_text_width 1) (lit ''Intro'')
          = lit ''Intro''"
    by blast
  ultimately show ?thesis using over val by blast
qed

text \<open>
  Claim C3, counterexample: at level 20 the column has a negative width, so every title
  is too wide; a title of six characters is drawn whole and without an ellipsis.
\<close>

theorem short_title_not_truncated:
  "half_em (lit ''abcdef'') (title_font 20) 12 > max_text_width 20 \<and>
   fit_title (\<lambda>s. half_em s (title_font 20) 12) (max_text_width 20) (lit ''abcdef'')
     = lit ''abcdef'' \<and>
   \<not> length (fit_title (\<lambda>s. half_em s (title_font 20) 12) (max_text_width 20) (lit ''abcdef''))
       < length (lit ''abcdef'') \<and>
   last (fit_title (\<lambda>s. half_em s (title_font 20) 12) (max_text_width 20) (lit ''abcdef''))
     \<noteq> 8230"
  by (simp add: half_em_def max_text_width_def x_text_def page_col_x_def width_def A4_def
        right_def left_def mm_def lit_def fit_title_def truncate_title.simps title_font_def)


text \<open>
  Claim C2, witness: the three entries of the end-to-end example.
\<close>

theorem draw_toc_pdf_pages_witness:
  "half_em [46] Helvetica 12 \<noteq> 0 \<and>
   (\<exists>chunks.
      concat chunks = [(1, lit ''Intro'', Some 1), (2, lit ''Background'', Some 2),
                       (1, lit ''Methods'', Some 5)] \<and>
      draw_toc_pdf half_em (lit ''Doc'')
        [(1, lit ''Intro'', Some 1), (2, lit ''Background'', Some 2),
         (1, lit ''Methods'', Some 5)]
        = Inr (map (page_ops half_em (lit ''Doc'')) chunks))"
proof -
  have dot: "half_em [46] Helvetica 12 \<noteq> 0"
    by (simp add: half_em_def)
  from dot draw_toc_pdf_pages [where str_width = half_em, OF dot] show ?thesis
    by blast
qed

text \<open>The three entries are on one page.\<close>

lemma draw_toc_pdf_example:
  "draw_toc_pdf half_em (lit ''Doc'')
     [(1, lit ''Intro'', Some 1), (2, lit ''Background'', Some 2), (1, lit ''Methods'', Some 5)]
     = Inr [page_ops half_em (lit ''Doc'')
              [(1, lit ''Intro'', Some 1), (2, lit ''Background'', Some 2),
               (1, lit ''Methods'', Some 5)]]"
proof -
  have dot: "half_em [46] Helvetica 12 \<noteq> 0"
    by (simp add: half_em_def)
  show ?thesis
    by (simp add: draw_toc_pdf_def draw_item_eq [where str_width = half_em, OF dot] header_eq
          Canvas_def Let_def showPage_def save_def page_ops_def header_ops_def first_y_def
          top_y_def height_def A4_def mm_def bottom_def line_h_def)
qed

lemma cell_value_cell [simp]: "cell_value (cell ws r c) r' c' = cell_value ws r' c'"
  by (auto simp: cell_def cell_value_def)

lemma cell_value_set_value [simp]:
  "cell_value (set_value ws r c v) r' c' = (if r' = r \<and> c' = c then v else cell_value ws r' c')"
  by (auto simp: set_value_def cell_value_def)

lemma map_of_le_max_row: "map_of ws (r, c) = Some v \<Longrightarrow> r \<le> max_row ws"
  by (induction ws) (auto simp: max_row_def split: if_splits)

lemma cell_value_le_max_row: "cell_value ws r c \<noteq> None \<Longrightarrow> r \<le> max_row ws"
  by (auto simp: cell_value_def split: option.splits dest: map_of_le_max_row)

lemma cell_value_beyond: "max_row ws < r \<Longrightarrow> cell_value ws r c = None"
  using cell_value_le_max_row [of ws r c] by (cases "cell_value ws r c") auto

lemma row_triple_beyond: "max_row ws < r \<Longrightarrow> row_triple ws r = blank"
  by (simp add: row_triple_def blank_def cell_value_beyond)

lemma cell_value_clear_row:
  "cell_value (clear_row ws r) r' c =
     (if r' = r \<and> c \<in> {1, 2, 3} then None else cell_value ws r' c)"
proof -
  have "[1..<4] = [1, 2, 3]"
    by (simp add: upt_rec)
  then show ?thesis
    by (auto simp: clear_row_def)
qed

lemma cell_value_fold_clear_row:
  "cell_value (fold (\<lambda>r ws. clear_row ws r) rs ws) r c =
     (if r \<in> set rs \<and> c \<in> {1, 2, 3} then None else cell_value ws r c)"
  by (induction rs arbitrary: ws) (auto simp: cell_value_clear_row)

lemma cell_value_clear_rows:
  "cell_value (clear_rows ws) r c =
     (if 2 \<le> r \<and> c \<in> {1, 2, 3} then None else cell_value ws r c)"
proof (cases "max_row ws < r")
  case True
  then show ?thesis
    by (simp add: clear_rows_def cell_value_fold_clear_row cell_value_beyond)
next
  case False
  then show ?thesis
    by (auto simp: clear_rows_def cell_value_fold_clear_row)
qed

lemma row_triple_clear_rows: "2 \<le> r \<Longrightarrow> row_triple (clear_rows ws) r = blank"
  by (simp add: row_triple_def blank_def cell_value_clear_rows)






lemma existing_rows_eq:
  "\<exists>ws'. existing_rows ws rs existing
           = (existing \<union> {t. t \<noteq> blank \<and> (\<exists>r \<in> set rs. row_triple ws r = t)}, ws') \<and>
         cell_value ws' = cell_value ws"
proof (induction rs arbitrary: ws existing)
  case Nil
  then show ?case by simp
next
  case (Cons r rs)
  let ?ws1 = "cell (cell (cell ws r 1) r 2) r 3"
  have v: "cell_value ?ws1 = cell_value ws"
    by (intro ext) simp
  then have rt: "row_triple ?ws1 = row_triple ws"
    by (intro ext) (simp add: row_triple_def)
  show ?case
  proof (cases "row_triple ws r = blank")
    case True
    then have step: "existing_rows ws (r # rs) existing = existing_rows ?ws1 rs existing"
      by (simp add: row_triple_def blank_def Let_def)
    from Cons.IH [of ?ws1 existing] obtain ws' where
      e: "existing_rows ?ws1 rs existing
            = (existing \<union> {t. t \<noteq> blank \<and> (\<exists>r \<in> set rs. row_triple ?ws1 r = t)}, ws')"
      and v': "cell_value ws' = cell_value ?ws1"
      by blast
    have "{t. t \<noteq> blank \<and> (\<exists>r' \<in> set rs. row_triple ws r' = t)}
            = {t. t \<noteq> blank \<and> (\<exists>r' \<in> set (r # rs). row_triple ws r' = t)}"
      using True by auto
    with step e v v' rt show ?thesis by simp
  next
    case False
    then have step: "existing_rows ws (r # rs) existing
                       = existing_rows ?ws1 rs (insert (row_triple ws r) existing)"
      by (auto simp: row_triple_def blank_def Let_def)
    from Cons.IH [of ?ws1 "insert (row_triple ws r) existing"] obtain ws' where
      e: "existing_rows ?ws1 rs (insert (row_triple ws r) existing)
            = (insert (row_triple ws r) existing
                 \<union> {t. t \<noteq> blank \<and> (\<exists>r \<in> set rs. row_triple ?ws1 r = t)}, ws')"
      and v': "cell_value ws' = cell_value ?ws1"
      by blast
    have "insert (row_triple ws r) existing
            \<union> {t. t \<noteq> blank \<and> (\<exists>r' \<in> set rs. row_triple ws r' = t)}
          = existing \<union> {t. t \<noteq> blank \<and> (\<exists>r' \<in> set (r # rs). row_triple ws r' = t)}"
      using False by auto
    with step e v v' rt show ?thesis by simp
  qed
qed

lemma set_ledger_rows:
  "set (ledger_rows ws) = {t. t \<noteq> blank \<and> (\<exists>r \<ge> 2. row_triple ws r = t)}"
proof -
  have mem: "t \<in> set (filter (\<lambda>t. t \<noteq> blank) (map f xs)) \<longleftrightarrow> (\<exists>r \<in> set xs. f r = t)"
    if "t \<noteq> blank" for t :: triple and f :: "nat \<Rightarrow> triple" and xs
    using that by auto
  have eq: "(\<exists>r \<in> set [2..<max_row ws + 1]. row_triple ws r = t) \<longleftrightarrow> (\<exists>r \<ge> 2. row_triple ws r = t)"
    if "t \<noteq> blank" for t
  proof
    assume "\<exists>r \<in> set [2..<max_row ws + 1]. row_triple ws r = t"
    then show "\<exists>r \<ge> 2. row_triple ws r = t" by auto
  next
    assume "\<exists>r \<ge> 2. row_triple ws r = t"
    then obtain r where r: "2 \<le> r" "row_triple ws r = t" by blast
    with that have "\<not> max_row ws < r"
      using row_triple_beyond [of ws r] by auto
    with r show "\<exists>r \<in> set [2..<max_row ws + 1]. row_triple ws r = t"
      by (intro bexI [of _ r]) auto
  qed
  show ?thesis
  proof (rule set_eqI)
    fix t
    show "t \<in> set (ledger_rows ws) \<longleftrightarrow> t \<in> {t. t \<noteq> blank \<and> (\<exists>r \<ge> 2. row_triple ws r = t)}"
    proof (cases "t = blank")
      case True
      then show ?thesis by (simp add: ledger_rows_def)
    next
      case False
      with mem [OF False, of "row_triple ws" "[2..<max_row ws + 1]"] eq [OF False]
      show ?thesis unfolding ledger_rows_def by blast
    qed
  qed
qed



lemma any_value_eq:
  "\<exists>ws'. any_value ws r = (row_triple ws r \<noteq> blank, ws') \<and> cell_value ws' = cell_value ws"
proof -
  have 1: "cell_value (cell ws r 1) = cell_value ws" by (intro ext) simp
  have 2: "cell_value (cell (cell ws r 1) r 2) = cell_value ws" by (intro ext) simp
  have 3: "cell_value (cell (cell (cell ws r 1) r 2) r 3) = cell_value ws" by (intro ext) simp
  show ?thesis
    using 1 2 3 by (auto simp: any_value_def Let_def row_triple_def blank_def)
qed

lemma first_empty_row_eq:
  "\<exists>r0 ws'. first_empty_row ws r = (r0, ws') \<and> cell_value ws' = cell_value ws \<and>
     r \<le> r0 \<and> row_triple ws r0 = blank \<and> (\<forall>r'. r \<le> r' \<and> r' < r0 \<longrightarrow> row_triple ws r' \<noteq> blank)"
proof (induction ws r rule: first_empty_row.induct)
  case (1 ws r)
  from any_value_eq [of ws r] obtain ws1 where
    a: "any_value ws r = (row_triple ws r \<noteq> blank, ws1)" and v1: "cell_value ws1 = cell_value ws"
    by blast
  from v1 have rt1: "row_triple ws1 = row_triple ws"
    by (intro ext) (simp add: row_triple_def)
  show ?case
  proof (cases "row_triple ws r = blank")
    case True
    with a have "first_empty_row ws r = (r, ws1)"
      by (simp add: first_empty_row.simps [of ws r])
    with True v1 show ?thesis by auto
  next
    case False
    then have "r \<le> max_row ws"
      using row_triple_beyond [of ws r] by (cases "max_row ws < r") auto
    moreover have "max_row ws \<le> max_row ws1"
    proof -
      have "max_row s \<le> max_row (cell s r c)" for s c
        by (simp add: cell_def max_row_def)
      then have "max_row ws \<le> max_row (cell (cell (cell ws r 1) r 2) r 3)"
        "max_row ws \<le> max_row (cell (cell ws r 1) r 2)"
        "max_row ws \<le> max_row (cell ws r 1)"
        by (meson order_trans)+
      with a show ?thesis
        by (auto simp: any_value_def Let_def split: if_splits)
    qed
    ultimately have nb: "\<not> r + 1 > max_row ws1 + 20000" by simp
    with a False have step: "first_empty_row ws r = first_empty_row ws1 (r + 1)"
      by (simp add: first_empty_row.simps [of ws r])
    from a False have "(row_triple ws r \<noteq> blank, ws1) = any_value ws r" and "row_triple ws r \<noteq> blank"
      by simp_all
    from "1.IH" [OF this nb] obtain r0 ws' where
      f: "first_empty_row ws1 (r + 1) = (r0, ws')" and v': "cell_value ws' = cell_value ws1"
      and le: "r + 1 \<le> r0" and b: "row_triple ws1 r0 = blank"
      and nbl: "\<forall>r'. r + 1 \<le> r' \<and> r' < r0 \<longrightarrow> row_triple ws1 r' \<noteq> blank"
      by blast
    have "\<forall>r'. r \<le> r' \<and> r' < r0 \<longrightarrow> row_triple ws r' \<noteq> blank"
    proof (intro allI impI)
      fix r' assume "r \<le> r' \<and> r' < r0"
      then show "row_triple ws r' \<noteq> blank"
        using False nbl rt1 by (cases "r' = r") auto
    qed
    with step f v' v1 le b rt1 show ?thesis by auto
  qed
qed

lemma append_rows_values:
  "cell_value (append_rows ws r rows dedupe existing) r' c =
     (let kept = filter (\<lambda>rowvals. \<not> (dedupe \<and> row_values rowvals \<in> existing)) rows
      in if r \<le> r' \<and> r' < r + length kept \<and> c \<in> {1, 2, 3}
         then triple_col c (row_values (kept ! (r' - r)))
         else cell_value ws r' c)"
proof (induction rows arbitrary: ws r)
  case Nil
  then show ?case by auto
next
  case (Cons rowvals rows)
  let ?kept = "filter (\<lambda>rowvals. \<not> (dedupe \<and> row_values rowvals \<in> existing)) rows"
  show ?case
  proof (cases "dedupe \<and> row_values rowvals \<in> existing")
    case True
    then show ?thesis
      using Cons.IH [of ws r] by (simp add: Let_def)
  next
    case False
    let ?ws1 = "set_value
                  (set_value
                     (set_value ws r 1 (fst (row_values rowvals)))
                     r 2 (fst (snd (row_values rowvals))))
                  r 3 (snd (snd (row_values rowvals)))"
    have nth: "(rowvals # ?kept) ! (r' - r) = ?kept ! (r' - (r + 1))" if "r < r'"
      using that by (simp add: nth_Cons')
    from False have step: "append_rows ws r (rowvals # rows) dedupe existing
        = append_rows ?ws1 (r + 1) rows dedupe existing"
      by auto
    from False have flt: "filter (\<lambda>rowvals. \<not> (dedupe \<and> row_values rowvals \<in> existing))
        (rowvals # rows) = rowvals # ?kept"
      by auto
    have ih: "cell_value (append_rows ?ws1 (r + 1) rows dedupe existing) r' c =
       (if r + 1 \<le> r' \<and> r' < r + 1 + length ?kept \<and> c \<in> {1, 2, 3}
        then triple_col c (row_values (?kept ! (r' - (r + 1))))
        else cell_value ?ws1 r' c)"
      using Cons.IH [of ?ws1 "r + 1"] by (auto simp: Let_def)
    show ?thesis
      unfolding step flt ih Let_def
      using nth by (auto simp: triple_col_def)
  qed
qed

lemma contiguous_iff:
  "contiguous ws \<longleftrightarrow>
     (\<forall>r r'. 2 \<le> r \<and> r \<le> r' \<and> row_triple ws r = blank \<longrightarrow> row_triple ws r' = blank)"
proof
  assume c: "contiguous ws"
  show "\<forall>r r'. 2 \<le> r \<and> r \<le> r' \<and> row_triple ws r = blank \<longrightarrow> row_triple ws r' = blank"
  proof (intro allI impI)
    fix r r' assume h: "2 \<le> r \<and> r \<le> r' \<and> row_triple ws r = blank"
    show "row_triple ws r' = blank"
    proof (cases "max_row ws < r'")
      case True
      then show ?thesis by (rule row_triple_beyond)
    next
      case False
      with h have "r \<in> set [2..<max_row ws + 1]" and "r' \<in> set [r..<max_row ws + 1]"
        by auto
      with c h show ?thesis unfolding contiguous_def by blast
    qed
  qed
next
  assume "\<forall>r r'. 2 \<le> r \<and> r \<le> r' \<and> row_triple ws r = blank \<longrightarrow> row_triple ws r' = blank"
  then show "contiguous ws"
    unfolding contiguous_def by auto
qed

lemma contiguous_clear_rows: "contiguous (clear_rows ws)"
  by (simp add: contiguous_iff row_triple_clear_rows)

lemma row_values_not_blank: "row_values rowvals \<noteq> blank"
  by (cases rowvals) (simp add: row_values_def blank_def)

lemma set_filter_not_blank:
  "{t. t \<noteq> blank \<and> (\<exists>r \<in> set xs. f r = t)} = set (filter (\<lambda>t. t \<noteq> blank) (map f xs))"
  by force

lemma append_master_opened:
  "\<exists>ws' r0. append_master (Some ws) template_xlsx rows dedupe = Inr ws' \<and>
     2 \<le> r0 \<and> row_triple ws r0 = blank \<and>
     (\<forall>r. 2 \<le> r \<and> r < r0 \<longrightarrow> row_triple ws r \<noteq> blank) \<and>
     (\<forall>i < length (kept_rows ws dedupe rows).
        row_triple ws' (r0 + i) = row_values (kept_rows ws dedupe rows ! i)) \<and>
     (\<forall>r c. \<not> (r0 \<le> r \<and> r < r0 + length (kept_rows ws dedupe rows) \<and> c \<in> {1, 2, 3}) \<longrightarrow>
        cell_value ws' r c = cell_value ws r c)"
proof -
  obtain existing ws1 where
    ex: "(if dedupe then existing_rows ws [2..<max_row ws + 1] {} else ({}, ws)) = (existing, ws1)"
    and v1: "cell_value ws1 = cell_value ws"
    and exs: "dedupe \<Longrightarrow> existing = set (ledger_rows ws)"
  proof (cases dedupe)
    case True
    from existing_rows_eq [of ws "[2..<max_row ws + 1]" "{}"] obtain ws1 where
      e: "existing_rows ws [2..<max_row ws + 1] {}
            = ({} \<union> {t. t \<noteq> blank \<and> (\<exists>r \<in> set [2..<max_row ws + 1]. row_triple ws r = t)}, ws1)"
      and v: "cell_value ws1 = cell_value ws"
      by blast
    have "{t. t \<noteq> blank \<and> (\<exists>r \<in> set [2..<max_row ws + 1]. row_triple ws r = t)}
            = set (ledger_rows ws)"
      unfolding ledger_rows_def by (rule set_filter_not_blank)
    with e v True that show ?thesis by simp
  next
    case False
    with that show ?thesis by simp
  qed
  from v1 have rt1: "row_triple ws1 = row_triple ws"
    by (intro ext) (simp add: row_triple_def)
  from first_empty_row_eq [of ws1 2] obtain r0 ws2 where
    f: "first_empty_row ws1 2 = (r0, ws2)" and v2: "cell_value ws2 = cell_value ws1"
    and r0: "2 \<le> r0" and b: "row_triple ws1 r0 = blank"
    and nb: "\<forall>r'. 2 \<le> r' \<and> r' < r0 \<longrightarrow> row_triple ws1 r' \<noteq> blank"
    by blast
  let ?ws' = "append_rows ws2 r0 rows dedupe existing"
  let ?kept = "kept_rows ws dedupe rows"
  have kept: "filter (\<lambda>rowvals. \<not> (dedupe \<and> row_values rowvals \<in> existing)) rows = ?kept"
    using exs by (cases dedupe) (simp_all add: kept_rows_def)
  have am: "append_master (Some ws) template_xlsx rows dedupe = Inr ?ws'"
    using ex f by (simp add: append_master_def)
  have cv: "cell_value ?ws' r c =
     (if r0 \<le> r \<and> r < r0 + length ?kept \<and> c \<in> {1, 2, 3}
      then triple_col c (row_values (?kept ! (r - r0)))
      else cell_value ws r c)" for r c
    using append_rows_values [of ws2 r0 rows dedupe existing r c] kept v2 v1
    by (auto simp: Let_def)
  have "\<forall>i < length ?kept. row_triple ?ws' (r0 + i) = row_values (?kept ! i)"
    by (simp add: row_triple_def cv triple_col_def)
  moreover have "\<forall>r c. \<not> (r0 \<le> r \<and> r < r0 + length ?kept \<and> c \<in> {1, 2, 3}) \<longrightarrow>
      cell_value ?ws' r c = cell_value ws r c"
    using cv by auto
  ultimately show ?thesis
    using am r0 b nb rt1 by (intro exI [of _ ?ws'] exI [of _ r0]) simp
qed

lemma append_master_created:
  "append_master None (Some template) rows dedupe
     = append_master (Some (clear_rows template)) (Some template) rows dedupe"
  by (simp add: append_master_def)

lemma row_triple_cong:
  "(\<And>c. cell_value ws' r c = cell_value ws r c) \<Longrightarrow> row_triple ws' r = row_triple ws r"
  by (simp add: row_triple_def)

lemma append_master_rows:
  assumes c: "contiguous ws"
    and am: "append_master (Some ws) template_xlsx rows dedupe = Inr ws'"
  shows "contiguous ws'"
    and "dedupe \<Longrightarrow> \<forall>rowvals \<in> set rows. row_values rowvals \<in> set (ledger_rows ws')"
proof -
  let ?kept = "kept_rows ws dedupe rows"
  from append_master_opened [of ws template_xlsx rows dedupe] am obtain r0 where
    r0: "2 \<le> r0" and b: "row_triple ws r0 = blank"
    and nb: "\<forall>r. 2 \<le> r \<and> r < r0 \<longrightarrow> row_triple ws r \<noteq> blank"
    and kept: "\<forall>i < length ?kept. row_triple ws' (r0 + i) = row_values (?kept ! i)"
    and other: "\<forall>r c. \<not> (r0 \<le> r \<and> r < r0 + length ?kept \<and> c \<in> {1, 2, 3}) \<longrightarrow>
        cell_value ws' r c = cell_value ws r c"
    by auto
  have below: "row_triple ws' r = row_triple ws r" if "r < r0" for r
    using that other by (intro row_triple_cong) auto
  have above: "row_triple ws' r = row_triple ws r" if "r0 + length ?kept \<le> r" for r
    using that other by (intro row_triple_cong) auto
  have blank_from: "row_triple ws r = blank" if "r0 \<le> r" for r
    using c r0 b that unfolding contiguous_iff by blast
  have within: "row_triple ws' r \<noteq> blank" if "r0 \<le> r" and "r < r0 + length ?kept" for r
  proof -
    from that have "r - r0 < length ?kept" and "r = r0 + (r - r0)" by auto
    with kept have "row_triple ws' r = row_values (?kept ! (r - r0))"
      by metis
    then show ?thesis by (simp add: row_values_not_blank)
  qed
  show "contiguous ws'"
    unfolding contiguous_iff
  proof (intro allI impI)
    fix r r' assume h: "2 \<le> r \<and> r \<le> r' \<and> row_triple ws' r = blank"
    have "r0 + length ?kept \<le> r"
    proof (rule ccontr)
      assume "\<not> r0 + length ?kept \<le> r"
      then have lt: "r < r0 + length ?kept" by simp
      show False
      proof (cases "r < r0")
        case True
        with h nb below [OF True] show False by auto
      next
        case False
        with lt within [of r] h show False by auto
      qed
    qed
    with h have "r0 + length ?kept \<le> r'" by simp
    then have "row_triple ws' r' = row_triple ws r'" by (rule above)
    also have "\<dots> = blank"
      using \<open>r0 + length ?kept \<le> r'\<close> by (intro blank_from) simp
    finally show "row_triple ws' r' = blank" .
  qed
  show "\<forall>rowvals \<in> set rows. row_values rowvals \<in> set (ledger_rows ws')" if d: dedupe
  proof
    fix rowvals assume mem: "rowvals \<in> set rows"
    show "row_values rowvals \<in> set (ledger_rows ws')"
    proof (cases "row_values rowvals \<in> set (ledger_rows ws)")
      case True
      then obtain r where r: "2 \<le> r" "row_triple ws r = row_values rowvals"
        by (auto simp: set_ledger_rows)
      have "r < r0"
      proof (rule ccontr)
        assume "\<not> r < r0"
        then have "row_triple ws r = blank" by (intro blank_from) simp
        with r show False using row_values_not_blank [of rowvals] by simp
      qed
      then have "row_triple ws' r = row_values rowvals"
        using r below by simp
      with r show ?thesis
        by (auto simp: set_ledger_rows row_values_not_blank)
    next
      case False
      with mem d have "rowvals \<in> set ?kept"
        by (simp add: kept_rows_def)
      then obtain i where i: "i < length ?kept" "?kept ! i = rowvals"
        by (auto simp: in_set_conv_nth)
      with kept have "row_triple ws' (r0 + i) = row_values rowvals" by auto
      moreover from r0 have "2 \<le> r0 + i" by simp
      ultimately show ?thesis
        by (auto simp: set_ledger_rows row_values_not_blank)
    qed
  qed
qed











text \<open>
  A merge keeps the data rows together, and a ledger made from the template has none:
  every ledger that \<open>append_master\<close> made and extended has its data rows together.
\<close>

lemma append_master_new_ledger_contiguous:
  assumes am: "append_master master (Some template) rows dedupe = Inr ws'"
    and m: "master = None \<or> (\<exists>ws. master = Some ws \<and> contiguous ws)"
  shows "contiguous ws'"
proof -
  from m show ?thesis
  proof
    assume "master = None"
    with am have "append_master (Some (clear_rows template)) (Some template) rows dedupe = Inr ws'"
      by (simp add: append_master_created)
    with contiguous_clear_rows show ?thesis by (rule append_master_rows(1))
  next
    assume "\<exists>ws. master = Some ws \<and> contiguous ws"
    then obtain ws where "master = Some ws" and c: "contiguous ws" by blast
    with am have "append_master (Some ws) (Some template) rows dedupe = Inr ws'" by simp
    with c show ?thesis by (rule append_master_rows(1))
  qed
qed















text \<open>
  The indented title of a ledger row is the indentation and a stripped title.
\<close>

lemma pdf_rows_titles_stripped:
  assumes "row \<in> set (pdf_rows p)"
  shows "\<exists>level title. fst (snd row) = indented level title \<and> stripped title"
proof -
  obtain items where r: "extract_bookmarks (snd p) = Inr items"
    and m: "row \<in> set (map (master_row (fst p)) items)"
  proof (cases "extract_bookmarks (snd p)")
    case (Inl e)
    with assms show ?thesis by (simp add: pdf_rows_def)
  next
    case (Inr items)
    with assms that [of items] show ?thesis by (simp add: pdf_rows_def)
  qed
  from m obtain e where e: "e \<in> set items" and row: "row = master_row (fst p) e"
    by auto
  from r obtain outlines where p: "snd p = Readable outlines"
    by (cases "snd p") (simp_all add: extract_bookmarks_def)
  have "stripped (entry_title e)"
  proof (cases outlines)
    case (Dest ta os dp ch)
    with r p e have "e \<in> set (nested_entries 1 (Dest ta os dp ch))"
      by (simp add: extract_bookmarks_nested)
    then show ?thesis by (rule nested_entries_stripped)
  next
    case (Sub seq)
    with r p e have "e \<in> set (nested_entries 0 (Sub seq))"
      by (simp add: extract_bookmarks_nested)
    then show ?thesis by (rule nested_entries_stripped)
  qed
  moreover obtain level title page where "e = (level, title, page)"
    by (cases e)
  ultimately show ?thesis
    using row by (auto simp: master_row_def entry_title_def)
qed

end
